theory Spec2Isabelle
  imports Main "HOL-Library.List_Lexorder" "HOL-Library.Char_ord" "HOL-Library.Multiset"
begin

section \<open>Exceptions and the error reporter\<close>

text \<open>
  Python exceptions that can leave the functions modelled here. A function that may raise
  returns \<open>exn + 'a\<close>; \<open>Inl\<close> is the exception that leaves the function.
  \<open>PatternError\<close> is \<open>re.error\<close>.
\<close>

datatype exn = RuntimeError string | TypeError | ReferenceError | IndexError | PatternError

text \<open>
  The part of the host application that \<open>report_error\<close> touches: the process
  environment, the two string properties of \<open>bpy.context.window_manager.send2ue\<close>,
  the popup menus shown so far (by title) and the lines printed so far.
\<close>

record host =
  environ :: "string \<rightharpoonup> string"
  error_message :: string
  error_message_details :: string
  popups :: "string list"
  printed :: "string list"

text \<open>
  The first argument of \<open>report_error\<close>: a string, or the report-type set
  \<open>{'WARNING'}\<close> that the function compares it with.
\<close>

datatype message = Text string | Warning_set

text \<open>
  \<open>os.environ.get('SEND2UE_DEV', raise_exception)\<close> as a truth value: the variable's
  string when it is set (true when not empty), the argument \<open>raise_exception\<close> otherwise.
\<close>

definition send2ue_dev :: "host \<Rightarrow> bool \<Rightarrow> bool" where
  "send2ue_dev h raise_exception =
     (case environ h ''SEND2UE_DEV'' of Some v \<Rightarrow> v \<noteq> [] | None \<Rightarrow> raise_exception)"

fun report_error :: "message \<Rightarrow> string \<Rightarrow> bool \<Rightarrow> host \<Rightarrow> (exn + unit) \<times> host" where
  "report_error Warning_set details raise_exception h =
     (Inr (), h\<lparr>printed := printed h @ [''{'WARNING'} '' @ details]\<rparr>)"
| "report_error (Text m) details raise_exception h =
     (if send2ue_dev h raise_exception then (Inl (RuntimeError (m @ details)), h)
      else (Inr (), h\<lparr>error_message := m, error_message_details := details,
                        popups := popups h @ [''Error'']\<rparr>))"

section \<open>The validation pipeline\<close>

datatype validation =
    Validate_scene_scale
  | Validate_frame_rate
  | Validate_armature_transforms
  | Validate_export_objects_exist
  | Validate_lod_groups
  | Validate_project_settings
  | Validate_disk_folders
  | Validate_unreal_folders
  | Validate_unreal_asset_paths
  | Validate_materials
  | Validate_lod_names
  | Validate_texture_references
  | Validate_object_names
  | Validate_meshes_for_vertex_groups



type_synonym call = "validation \<times> (exn + bool)"




text \<open>The calls up to and including the first one that did not return true.\<close>

fun until_failure :: "call list \<Rightarrow> call list" where
  "until_failure [] = []"
| "until_failure (c # cs) = (if snd c = Inr True then c # until_failure cs else [c])"


text \<open>
  One check as the source has it: \<open>validate_lod_groups\<close> over the two toggles it reads.
  \<open>report_error\<close> is called with its default \<open>raise_exception=True\<close>; when it returns,
  the check returns false.
\<close>

record properties =
  import_lods :: bool
  import_grooms :: bool
  lod_regex :: string




definition default_host :: host where
  "default_host = \<lparr>environ = Map.empty, error_message = [],
     error_message_details = [], popups = [], printed = []\<rparr>"

section \<open>Scene objects and the export collection\<close>

text \<open>
  A scene object as the functions below read it: its name, its type (\<open>'MESH'\<close>,
  \<open>'ARMATURE'\<close>, ...), what \<open>visible_get()\<close> returns and its selection flag.
\<close>

record blender_object =
  name :: string
  obj_type :: string
  visible :: bool
  selected :: bool

definition startswith :: "string \<Rightarrow> string \<Rightarrow> bool" where
  "startswith s p = (take (length p) s = p)"

text \<open>
  \<open>any(name.startswith(f'{token.value}_') for token in PreFixToken)\<close>. The enum
  \<open>PreFixToken\<close> is declared in \<open>constants.py\<close>, which is not among the sources, so its
  values are the parameter \<open>tokens\<close>.
\<close>

definition has_prefix_token :: "string list \<Rightarrow> string \<Rightarrow> bool" where
  "has_prefix_token tokens n = list_ex (\<lambda>token. startswith n (token @ ''_'')) tokens"

text \<open>
  \<open>get_from_collection\<close>: \<open>export_collection\<close> is what
  \<open>bpy.data.collections.get(ToolInfo.EXPORT_COLLECTION.value)\<close> returns, \<open>None\<close> or the
  collection's \<open>all_objects\<close> in the host's order. Python's \<open>sorted\<close> is stable, as
  \<open>sort_key\<close> is; strings compare lexicographically by character code.
\<close>

definition get_from_collection ::
    "string list \<Rightarrow> blender_object list option \<Rightarrow> string \<Rightarrow> blender_object list" where
  "get_from_collection tokens export_collection object_type =
     sort_key name
       (case export_collection of
          None \<Rightarrow> []
        | Some all_objects \<Rightarrow>
            filter (\<lambda>collection_object.
                obj_type collection_object = object_type \<and> visible collection_object \<and>
                \<not> has_prefix_token tokens (name collection_object))
              all_objects)"

definition collision_tokens :: "string list" where
  "collision_tokens = [''UBX'', ''UCP'', ''USP'', ''UCX'']"

definition mk_object :: "string \<Rightarrow> string \<Rightarrow> bool \<Rightarrow> blender_object" where
  "mk_object n ty vis = \<lparr>name = n, obj_type = ty, visible = vis, selected = False\<rparr>"

section \<open>The scene and the export context\<close>

















section \<open>Strings and characters\<close>

text \<open>
  Names and patterns are strings of 8-bit characters. The character classes of Python
  (\<open>str.isspace\<close>, the digits that \<open>int\<close> reads, \<open>\d\<close>, \<open>\w\<close>, \<open>\s\<close>, letter case
  under \<open>re.IGNORECASE\<close>) are modelled on the ASCII range, where they are as below; a
  character above 127 is taken as an ordinary symbol: no space, no digit, no letter.
\<close>

definition is_digit :: "char \<Rightarrow> bool" where
  "is_digit c = (CHR ''0'' \<le> c \<and> c \<le> CHR ''9'')"

definition is_upper :: "char \<Rightarrow> bool" where
  "is_upper c = (CHR ''A'' \<le> c \<and> c \<le> CHR ''Z'')"

definition is_lower :: "char \<Rightarrow> bool" where
  "is_lower c = (CHR ''a'' \<le> c \<and> c \<le> CHR ''z'')"

definition is_alpha :: "char \<Rightarrow> bool" where
  "is_alpha c = (is_upper c \<or> is_lower c)"

definition is_alnum :: "char \<Rightarrow> bool" where
  "is_alnum c = (is_alpha c \<or> is_digit c)"

definition is_word :: "char \<Rightarrow> bool" where
  "is_word c = (is_alnum c \<or> c = CHR ''_'')"

text \<open>Tab, line feed, vertical tab, form feed, carriage return, the four separators
  \<open>0x1c\<close> to \<open>0x1f\<close> and the space.\<close>

definition is_space :: "char \<Rightarrow> bool" where
  "is_space c = ((CHR 0x09 \<le> c \<and> c \<le> CHR 0x0D) \<or> (CHR 0x1C \<le> c \<and> c \<le> CHR 0x1F) \<or> c = CHR '' '')"

definition to_lower :: "char \<Rightarrow> char" where
  "to_lower c = (if is_upper c then char_of (of_char c + (32 :: nat)) else c)"

text \<open>\<open>str.strip()\<close> with no argument.\<close>

definition strip :: "string \<Rightarrow> string" where
  "strip s = rev (dropWhile is_space (rev (dropWhile is_space s)))"

text \<open>
  \<open>str.replace(old, new)\<close>: every occurrence of \<open>old\<close>, found from the left without
  overlap, becomes \<open>new\<close>; an empty \<open>old\<close> matches before every character and at the end.
\<close>

function replace_from :: "string \<Rightarrow> string \<Rightarrow> string \<Rightarrow> string" where
  "replace_from old new s =
     (if old = [] \<or> s = [] then s
      else if startswith s old then new @ replace_from old new (drop (length old) s)
      else hd s # replace_from old new (tl s))"
  by pat_completeness auto
termination
  by (relation "measure (\<lambda>(old, new, s). length s)") auto

declare replace_from.simps [simp del]

definition py_replace :: "string \<Rightarrow> string \<Rightarrow> string \<Rightarrow> string" where
  "py_replace s old new =
     (if old = [] then new @ concat (map (\<lambda>c. c # new) s) else replace_from old new s)"

text \<open>\<open>int(c)\<close> of a one-character string: the digit's value, or ValueError (\<open>None\<close>).\<close>

definition int_of_char :: "char \<Rightarrow> int option" where
  "int_of_char c = (if is_digit c then Some (int (of_char c) - 48) else None)"

section \<open>Regular expressions\<close>

text \<open>
  The fragment of Python's \<open>re\<close> syntax that is modelled: literal characters, a backslash
  before a character that is no ASCII letter or digit (the character itself), the classes
  \<open>\d \D \w \W \s \S\<close>, the dot, \<open>^\<close> and \<open>$\<close>, capturing groups and \<open>(?:...)\<close>,
  alternation, and the greedy repeats \<open>*\<close>, \<open>+\<close>, \<open>?\<close> of an item that cannot match
  the empty string. Other syntax (character sets, counted and lazy repeats, further
  escapes and \<open>(?...)\<close> extensions) is outside the fragment: the compiler answers
  \<open>Unsupported\<close> and the functions built on it answer \<open>None\<close>, which says nothing
  about what Python does.
\<close>

datatype category = Digit | Word | Space

datatype token =
    TLit char | TCat category bool | TDot | TBol | TEol
  | TOpen | TOpenNC | TClose | TBar | TStar | TPlus | TOpt
  | TBadEscape | TUnsupported

definition escape_token :: "char \<Rightarrow> token" where
  "escape_token d =
     (if d = CHR ''d'' then TCat Digit False else if d = CHR ''D'' then TCat Digit True
      else if d = CHR ''w'' then TCat Word False else if d = CHR ''W'' then TCat Word True
      else if d = CHR ''s'' then TCat Space False else if d = CHR ''S'' then TCat Space True
      else if is_alnum d then TUnsupported
      else TLit d)"

definition plain_token :: "char \<Rightarrow> token" where
  "plain_token c =
     (if c = CHR ''.'' then TDot else if c = CHR ''^'' then TBol else if c = CHR ''$'' then TEol
      else if c = CHR '')'' then TClose else if c = CHR ''|'' then TBar
      else if c = CHR ''*'' then TStar else if c = CHR ''+'' then TPlus
      else if c = CHR ''?'' then TOpt
      else if c = CHR ''['' \<or> c = CHR ''{'' then TUnsupported
      else TLit c)"

text \<open>
  The tokens of a pattern, left to right. A backslash that ends the pattern is the error
  \<open>bad escape (end of pattern)\<close>; the tokens end at the first piece of syntax outside
  the fragment.
\<close>

fun tokenize :: "string \<Rightarrow> token list" where
  "tokenize [] = []"
| "tokenize (c # cs) =
     (if c = CHR 0x5C then
        (case cs of [] \<Rightarrow> [TBadEscape] | d # ds \<Rightarrow> escape_token d # tokenize ds)
      else if c = CHR ''('' then
        (case cs of
           [] \<Rightarrow> TOpen # tokenize cs
         | d # ds \<Rightarrow>
             if d = CHR ''?'' then
               (case ds of
                  [] \<Rightarrow> [TUnsupported]
                | e # es \<Rightarrow> if e = CHR '':'' then TOpenNC # tokenize es else [TUnsupported])
             else TOpen # tokenize cs)
      else plain_token c # tokenize cs)"

datatype regex =
    Eps | Lit char | Cat category bool | Dot | Bol | Eol
  | Seq regex regex | Alt regex regex
  | Star regex | Plus regex | Opt regex
  | Group "nat option" regex

fun nullable :: "regex \<Rightarrow> bool" where
  "nullable Eps = True"
| "nullable (Lit c) = False"
| "nullable (Cat k neg) = False"
| "nullable Dot = False"
| "nullable Bol = True"
| "nullable Eol = True"
| "nullable (Seq a b) = (nullable a \<and> nullable b)"
| "nullable (Alt a b) = (nullable a \<or> nullable b)"
| "nullable (Star a) = True"
| "nullable (Plus a) = nullable a"
| "nullable (Opt a) = True"
| "nullable (Group g a) = nullable a"

fun is_repeat :: "regex \<Rightarrow> bool" where
  "is_repeat (Star a) = True"
| "is_repeat (Plus a) = True"
| "is_repeat (Opt a) = True"
| "is_repeat r = False"

text \<open>
  An open group while parsing: its number (\<open>None\<close> for \<open>(?:\<close> and for the whole
  pattern), the alternatives already closed by \<open>|\<close>, and the items of the current
  alternative, the last one first.
\<close>

datatype frame = Frame (kind: "nat option") (branches: "regex list") (items: "regex list")

definition seq_of :: "regex list \<Rightarrow> regex" where
  "seq_of rs = foldr Seq rs Eps"

fun alt_of :: "regex list \<Rightarrow> regex" where
  "alt_of [] = Eps"
| "alt_of [r] = r"
| "alt_of (r # rs) = Alt r (alt_of rs)"

definition regex_of :: "frame \<Rightarrow> regex" where
  "regex_of f = alt_of (branches f @ [seq_of (rev (items f))])"

definition push :: "regex \<Rightarrow> frame \<Rightarrow> frame" where
  "push r f = Frame (kind f) (branches f) (r # items f)"

datatype compile_result = Compiled regex nat | Re_error | Unsupported

datatype repeat_op = Op_star | Op_plus | Op_opt

fun apply_op :: "repeat_op \<Rightarrow> regex \<Rightarrow> regex" where
  "apply_op Op_star r = Star r"
| "apply_op Op_plus r = Plus r"
| "apply_op Op_opt r = Opt r"

text \<open>
  A repeat applies to the last item of the current alternative. Python raises
  \<open>nothing to repeat\<close> when there is none or it is \<open>^\<close> or \<open>$\<close>, and \<open>multiple repeat\<close>
  for a \<open>*\<close> after a repeat; \<open>?\<close> or \<open>+\<close> after a repeat makes it lazy or possessive,
  which is outside the fragment, as is the repeat of an item that can match the empty
  string. The result is the new frame, or how compilation ends.
\<close>

definition repeat_last :: "repeat_op \<Rightarrow> frame \<Rightarrow> compile_result + frame" where
  "repeat_last op f =
     (case items f of
        [] \<Rightarrow> Inl Re_error
      | r # rs \<Rightarrow>
          if r = Bol \<or> r = Eol then Inl Re_error
          else if is_repeat r then (if op = Op_star then Inl Re_error else Inl Unsupported)
          else if nullable r then Inl Unsupported
          else Inr (Frame (kind f) (branches f) (apply_op op r # rs)))"

text \<open>
  The parser: \<open>stack\<close> holds the enclosing open groups, \<open>cur\<close> the innermost one and
  \<open>n\<close> the number of capturing groups opened so far. A \<open>)\<close> with no open group is
  \<open>unbalanced parenthesis\<close>, an open group at the end is \<open>missing )\<close>.
\<close>

fun parse :: "frame list \<Rightarrow> frame \<Rightarrow> nat \<Rightarrow> token list \<Rightarrow> compile_result" where
  "parse stack cur n [] = (if stack = [] then Compiled (regex_of cur) n else Re_error)"
| "parse stack cur n (TLit c # ts) = parse stack (push (Lit c) cur) n ts"
| "parse stack cur n (TCat k neg # ts) = parse stack (push (Cat k neg) cur) n ts"
| "parse stack cur n (TDot # ts) = parse stack (push Dot cur) n ts"
| "parse stack cur n (TBol # ts) = parse stack (push Bol cur) n ts"
| "parse stack cur n (TEol # ts) = parse stack (push Eol cur) n ts"
| "parse stack cur n (TOpen # ts) = parse (cur # stack) (Frame (Some (Suc n)) [] []) (Suc n) ts"
| "parse stack cur n (TOpenNC # ts) = parse (cur # stack) (Frame None [] []) n ts"
| "parse stack cur n (TClose # ts) =
     (case stack of
        [] \<Rightarrow> Re_error
      | outer # stack' \<Rightarrow> parse stack' (push (Group (kind cur) (regex_of cur)) outer) n ts)"
| "parse stack cur n (TBar # ts) =
     parse stack (Frame (kind cur) (branches cur @ [seq_of (rev (items cur))]) []) n ts"
| "parse stack cur n (TStar # ts) =
     (case repeat_last Op_star cur of Inl e \<Rightarrow> e | Inr cur' \<Rightarrow> parse stack cur' n ts)"
| "parse stack cur n (TPlus # ts) =
     (case repeat_last Op_plus cur of Inl e \<Rightarrow> e | Inr cur' \<Rightarrow> parse stack cur' n ts)"
| "parse stack cur n (TOpt # ts) =
     (case repeat_last Op_opt cur of Inl e \<Rightarrow> e | Inr cur' \<Rightarrow> parse stack cur' n ts)"
| "parse stack cur n (TBadEscape # ts) = Re_error"
| "parse stack cur n (TUnsupported # ts) = Unsupported"

definition re_compile :: "string \<Rightarrow> compile_result" where
  "re_compile pattern = parse [] (Frame None [] []) 0 (tokenize pattern)"

section \<open>Matching\<close>

text \<open>
  The matcher gives, for an expression and a position of the subject string, every way
  to match from there as the end position and the groups captured, in the order in which
  Python's backtracking matcher tries them: the first alternative before the second, a
  further iteration of a greedy repeat before leaving the repeat. A capture is the group's
  number with the start and end position of its text, the latest first.
\<close>

type_synonym caps = "(nat \<times> nat \<times> nat) list"

definition in_category :: "category \<Rightarrow> char \<Rightarrow> bool" where
  "in_category k c = (case k of Digit \<Rightarrow> is_digit c | Word \<Rightarrow> is_word c | Space \<Rightarrow> is_space c)"

definition char_eq :: "bool \<Rightarrow> char \<Rightarrow> char \<Rightarrow> bool" where
  "char_eq ignorecase a b = (if ignorecase then to_lower a = to_lower b else a = b)"

fun rsize :: "regex \<Rightarrow> nat" where
  "rsize (Seq a b) = Suc (rsize a + rsize b)"
| "rsize (Alt a b) = Suc (rsize a + rsize b)"
| "rsize (Star a) = Suc (rsize a)"
| "rsize (Plus a) = Suc (Suc (rsize a))"
| "rsize (Opt a) = Suc (rsize a)"
| "rsize (Group g a) = Suc (rsize a)"
| "rsize r = 0"

function matches :: "bool \<Rightarrow> string \<Rightarrow> regex \<Rightarrow> nat \<Rightarrow> caps \<Rightarrow> (nat \<times> caps) list" where
  "matches ic s Eps i c = [(i, c)]"
| "matches ic s (Lit a) i c = (if i < length s \<and> char_eq ic (s ! i) a then [(Suc i, c)] else [])"
| "matches ic s (Cat k neg) i c =
     (if i < length s \<and> (in_category k (s ! i) \<noteq> neg) then [(Suc i, c)] else [])"
| "matches ic s Dot i c = (if i < length s \<and> s ! i \<noteq> CHR 0x0A then [(Suc i, c)] else [])"
| "matches ic s Bol i c = (if i = 0 then [(i, c)] else [])"
| "matches ic s Eol i c =
     (if i = length s \<or> (Suc i = length s \<and> s ! i = CHR 0x0A) then [(i, c)] else [])"
| "matches ic s (Seq a b) i c =
     concat (map (\<lambda>(j, c'). matches ic s b j c') (matches ic s a i c))"
| "matches ic s (Alt a b) i c = matches ic s a i c @ matches ic s b i c"
| "matches ic s (Star a) i c =
     concat (map (\<lambda>(j, c'). if i < j \<and> j \<le> length s then matches ic s (Star a) j c' else [])
       (matches ic s a i c)) @ [(i, c)]"
| "matches ic s (Plus a) i c =
     concat (map (\<lambda>(j, c'). matches ic s (Star a) j c') (matches ic s a i c))"
| "matches ic s (Opt a) i c = matches ic s a i c @ [(i, c)]"
| "matches ic s (Group g a) i c =
     map (\<lambda>(j, c'). (j, (case g of None \<Rightarrow> c' | Some k \<Rightarrow> (k, i, j) # c')))
       (matches ic s a i c)"
  by pat_completeness auto
termination
  by (relation "measures [\<lambda>(ic, s, r, i, c). rsize r, \<lambda>(ic, s, r, i, c). length s - i]") auto

declare matches.simps(9) [simp del]

text \<open>
  A match object: where the match starts and ends in the subject, and the captures.
  \<open>re.search\<close> takes the first way to match at the leftmost position that has one;
  \<open>re.fullmatch\<close> takes the first way to match from the start that ends at the end.
\<close>

record match_object =
  m_start :: nat
  m_end :: nat
  m_caps :: caps

fun search_from :: "bool \<Rightarrow> string \<Rightarrow> regex \<Rightarrow> nat \<Rightarrow> nat \<Rightarrow> match_object option" where
  "search_from ic s r i 0 =
     (case matches ic s r i [] of
        [] \<Rightarrow> None
      | (j, c) # rest \<Rightarrow> Some \<lparr>m_start = i, m_end = j, m_caps = c\<rparr>)"
| "search_from ic s r i (Suc k) =
     (case matches ic s r i [] of
        [] \<Rightarrow> search_from ic s r (Suc i) k
      | (j, c) # rest \<Rightarrow> Some \<lparr>m_start = i, m_end = j, m_caps = c\<rparr>)"

definition re_search :: "bool \<Rightarrow> regex \<Rightarrow> string \<Rightarrow> match_object option" where
  "re_search ic r s = search_from ic s r 0 (length s)"

definition re_fullmatch :: "bool \<Rightarrow> regex \<Rightarrow> string \<Rightarrow> match_object option" where
  "re_fullmatch ic r s =
     (case filter (\<lambda>(j, c). j = length s) (matches ic s r 0 []) of
        [] \<Rightarrow> None
      | (j, c) # rest \<Rightarrow> Some \<lparr>m_start = 0, m_end = j, m_caps = c\<rparr>)"

text \<open>
  \<open>result.groups()\<close>: for each group of the pattern, from 1 to \<open>n\<close>, its text in the
  subject, or \<open>None\<close> when the group took no part in the match.
\<close>

definition group_text :: "string \<Rightarrow> caps \<Rightarrow> nat \<Rightarrow> string option" where
  "group_text s c g =
     (case map_of c g of None \<Rightarrow> None | Some (i, j) \<Rightarrow> Some (take (j - i) (drop i s)))"

definition groups :: "string \<Rightarrow> nat \<Rightarrow> match_object \<Rightarrow> string option list" where
  "groups s n mo = map (group_text s (m_caps mo)) [1..<Suc n]"

text \<open>Captures that lie inside the subject string.\<close>

definition caps_ok :: "string \<Rightarrow> caps \<Rightarrow> bool" where
  "caps_ok s c = (\<forall>(g, a, b) \<in> set c. a \<le> b \<and> b \<le> length s)"

section \<open>The language of an expression\<close>

text \<open>
  The strings an expression without \<open>^\<close> and \<open>$\<close> matches, as a set: the reference the
  matcher is compared with. The star is built from non-empty pieces, which gives the same
  set as the star built from all pieces.
\<close>

definition conc :: "string set \<Rightarrow> string set \<Rightarrow> string set" where
  "conc A B = {xs @ ys | xs ys. xs \<in> A \<and> ys \<in> B}"

inductive_set star :: "string set \<Rightarrow> string set" for A :: "string set" where
  star_empty: "[] \<in> star A"
| star_step: "w \<in> A \<Longrightarrow> w \<noteq> [] \<Longrightarrow> v \<in> star A \<Longrightarrow> w @ v \<in> star A"

fun lang :: "bool \<Rightarrow> regex \<Rightarrow> string set" where
  "lang ic Eps = {[]}"
| "lang ic (Lit a) = {[d] | d. char_eq ic d a}"
| "lang ic (Cat k neg) = {[d] | d. in_category k d \<noteq> neg}"
| "lang ic Dot = {[d] | d. d \<noteq> CHR 0x0A}"
| "lang ic Bol = {}"
| "lang ic Eol = {}"
| "lang ic (Seq a b) = conc (lang ic a) (lang ic b)"
| "lang ic (Alt a b) = lang ic a \<union> lang ic b"
| "lang ic (Star a) = star (lang ic a)"
| "lang ic (Plus a) = conc (lang ic a) (star (lang ic a))"
| "lang ic (Opt a) = lang ic a \<union> {[]}"
| "lang ic (Group g a) = lang ic a"

fun anchor_free :: "regex \<Rightarrow> bool" where
  "anchor_free Bol = False"
| "anchor_free Eol = False"
| "anchor_free (Seq a b) = (anchor_free a \<and> anchor_free b)"
| "anchor_free (Alt a b) = (anchor_free a \<and> anchor_free b)"
| "anchor_free (Star a) = anchor_free a"
| "anchor_free (Plus a) = anchor_free a"
| "anchor_free (Opt a) = anchor_free a"
| "anchor_free (Group g a) = anchor_free a"
| "anchor_free r = True"

section \<open>The interface of \<open>re\<close> used by the naming utilities\<close>

text \<open>
  What a call of \<open>re.search\<close> or \<open>re.fullmatch\<close> with a pattern string does: it raises
  \<open>re.error\<close> when the pattern does not compile, or it returns. \<open>Not_modelled\<close> is the
  answer for a pattern outside the modelled fragment.
\<close>

datatype 'a re_outcome = Raised_re_error | Not_modelled | Result 'a

text \<open>\<open>re.search(pattern, s, flags)\<close>, as \<open>None\<close> or the \<open>groups()\<close> of the match object.\<close>

definition py_re_search :: "string \<Rightarrow> string \<Rightarrow> bool \<Rightarrow> string option list option re_outcome" where
  "py_re_search pattern s ignorecase =
     (case re_compile pattern of
        Re_error \<Rightarrow> Raised_re_error
      | Unsupported \<Rightarrow> Not_modelled
      | Compiled r n \<Rightarrow> Result (map_option (groups s n) (re_search ignorecase r s)))"

text \<open>\<open>bool(re.fullmatch(pattern, s, flags))\<close>.\<close>

definition py_re_fullmatch :: "string \<Rightarrow> string \<Rightarrow> bool \<Rightarrow> bool re_outcome" where
  "py_re_fullmatch pattern s ignorecase =
     (case re_compile pattern of
        Re_error \<Rightarrow> Raised_re_error
      | Unsupported \<Rightarrow> Not_modelled
      | Compiled r n \<Rightarrow> Result (re_fullmatch ignorecase r s \<noteq> None))"

text \<open>
  \<open>re.escape\<close>: a backslash before each of the characters
  \<open>()[]{}?*+-|^$\.&~#\<close>, the space, tab, line feed, carriage return, vertical tab and
  form feed.
\<close>

definition re_special :: "char \<Rightarrow> bool" where
  "re_special c =
     (c \<in> set (''()[]{}?*+-|^$.&~# '' @ [CHR 0x5C, CHR 0x09, CHR 0x0A, CHR 0x0D, CHR 0x0B, CHR 0x0C]))"

definition re_escape :: "string \<Rightarrow> string" where
  "re_escape s = concat (map (\<lambda>c. if re_special c then [CHR 0x5C, c] else [c]) s)"

section \<open>The naming utilities\<close>

text \<open>
  \<open>re.sub(r'^\(\?[a-zA-Z]*\)', '', pattern)\<close>: the pattern is fixed, so it is matched
  directly. It matches at the start only: \<open>(?\<close>, the ASCII letters that follow, and a
  closing parenthesis right after them.
\<close>

definition strip_flag_group :: "string \<Rightarrow> string" where
  "strip_flag_group pattern =
     (case pattern of
        a # b # rest \<Rightarrow>
          if a = CHR ''('' \<and> b = CHR ''?'' then
            (case dropWhile is_alpha rest of
               [] \<Rightarrow> pattern
             | c # after \<Rightarrow> if c = CHR '')'' then after else pattern)
          else pattern
      | _ \<Rightarrow> pattern)"

text \<open>\<open>_extract_regex_flags\<close>; the flags are \<open>re.IGNORECASE\<close> (\<open>True\<close>) or \<open>0\<close>.\<close>

definition extract_regex_flags :: "string \<Rightarrow> string \<times> bool" where
  "extract_regex_flags pattern =
     (if startswith pattern ''(?i)'' then (strip_flag_group (drop 4 pattern), True)
      else (strip_flag_group pattern, False))"

text \<open>
  \<open>get_lod0_name\<close>. \<open>result.groups()[-1]\<close> is the last group of the pattern; when that
  group took no part in the match it is \<open>None\<close> and \<open>lod[:-1]\<close> raises TypeError, which
  the \<open>except (re.error, IndexError)\<close> does not catch.
\<close>

definition get_lod0_name :: "string \<Rightarrow> properties \<Rightarrow> (exn + string) option" where
  "get_lod0_name asset_name props =
     (case extract_regex_flags (lod_regex props) of
        (lod_regex', flags) \<Rightarrow>
          (case py_re_search (''('' @ lod_regex' @ '')'') asset_name flags of
             Not_modelled \<Rightarrow> None
           | Raised_re_error \<Rightarrow> Some (Inr asset_name)
           | Result None \<Rightarrow> Some (Inr asset_name)
           | Result (Some gs) \<Rightarrow>
               if gs = [] then Some (Inr asset_name)
               else
                 (case last gs of
                    None \<Rightarrow> Some (Inl TypeError)
                  | Some lod \<Rightarrow> Some (Inr (py_replace asset_name lod (butlast lod @ ''0''))))))"

text \<open>
  \<open>get_lod_index\<close>. \<open>lod[-1]\<close> of an empty string raises IndexError and \<open>int\<close> of a
  character that is no digit raises ValueError, both caught; \<open>lod[-1]\<close> of \<open>None\<close>
  raises TypeError, which is not.
\<close>

definition get_lod_index :: "string \<Rightarrow> properties \<Rightarrow> (exn + int) option" where
  "get_lod_index asset_name props =
     (case extract_regex_flags (lod_regex props) of
        (lod_regex', flags) \<Rightarrow>
          (case py_re_search (''('' @ lod_regex' @ '')'') asset_name flags of
             Not_modelled \<Rightarrow> None
           | Raised_re_error \<Rightarrow> Some (Inr 0)
           | Result None \<Rightarrow> Some (Inr 0)
           | Result (Some gs) \<Rightarrow>
               if gs = [] then Some (Inr 0)
               else
                 (case last gs of
                    None \<Rightarrow> Some (Inl TypeError)
                  | Some lod \<Rightarrow>
                      if lod = [] then Some (Inr 0)
                      else
                        (case int_of_char (last lod) of
                           None \<Rightarrow> Some (Inr 0)
                         | Some k \<Rightarrow> Some (Inr k)))))"

text \<open>
  Modelled from the spec: \<open>RegexPresets.INVALID_NAME_CHARACTERS\<close> is declared in
  \<open>constants.py\<close>, which is not among the sources. The spec has names normalised by
  replacing the characters outside an allowed set, and \<open>validate_object_names\<close> tells the
  user that the only valid special characters are \<open>+\<close>, \<open>-\<close> and \<open>_\<close>: the pattern is
  taken to match every run of characters that are neither word characters nor \<open>+\<close> nor
  \<open>-\<close>. \<open>sub_invalid_name_characters\<close> is \<open>re.sub\<close> of that pattern by \<open>"_"\<close>.
\<close>

definition valid_name_char :: "char \<Rightarrow> bool" where
  "valid_name_char c = (is_word c \<or> c = CHR ''-'' \<or> c = CHR ''+'')"

function sub_invalid_name_characters :: "string \<Rightarrow> string" where
  "sub_invalid_name_characters [] = []"
| "sub_invalid_name_characters (c # cs) =
     (if valid_name_char c then c # sub_invalid_name_characters cs
      else CHR ''_'' # sub_invalid_name_characters (dropWhile (\<lambda>d. \<not> valid_name_char d) cs))"
  by pat_completeness auto
termination
  by (relation "measure length") (auto simp: less_Suc_eq_le length_dropWhile_le)

text \<open>
  \<open>get_asset_name\<close>. \<open>result.groups()[0]\<close> is the first group, the parenthesis that the
  function puts around the pattern.
\<close>

definition get_asset_name :: "string \<Rightarrow> properties \<Rightarrow> bool \<Rightarrow> (exn + string) option" where
  "get_asset_name asset_name props lod =
     (let asset_name = sub_invalid_name_characters (strip asset_name) in
      if import_lods props then
        (case extract_regex_flags (lod_regex props) of
           (lod_regex', flags) \<Rightarrow>
             (case py_re_search (''('' @ lod_regex' @ '')'') asset_name flags of
                Not_modelled \<Rightarrow> None
              | Raised_re_error \<Rightarrow> Some (Inr asset_name)
              | Result None \<Rightarrow> Some (Inr asset_name)
              | Result (Some gs) \<Rightarrow>
                  if lod then Some (Inr asset_name)
                  else
                    (case gs of
                       [] \<Rightarrow> Some (Inl IndexError)
                     | g # rest \<Rightarrow>
                         (case g of
                            None \<Rightarrow> Some (Inl TypeError)
                          | Some text \<Rightarrow> Some (Inr (py_replace asset_name text []))))))
      else Some (Inr asset_name))"

text \<open>\<open>is_collision_of\<close>, with the two patterns as the source concatenates them.\<close>

definition collision_prefix :: string where
  "collision_prefix = ''U(BX|CP|SP|CX)_''"

definition collision_suffix :: string where
  "collision_suffix = ''(_'' @ [CHR 0x5C] @ ''d+)?''"

definition is_collision_of :: "string \<Rightarrow> string \<Rightarrow> properties \<Rightarrow> (exn + bool) option" where
  "is_collision_of asset_name mesh_object_name props =
     (let mesh_object_name = strip mesh_object_name;
          basic_pattern = collision_prefix @ re_escape asset_name @ collision_suffix
      in
        (case py_re_fullmatch basic_pattern mesh_object_name False of
           Not_modelled \<Rightarrow> None
         | Raised_re_error \<Rightarrow> Some (Inl PatternError)
         | Result True \<Rightarrow> Some (Inr True)
         | Result False \<Rightarrow>
             (case extract_regex_flags (lod_regex props) of
                (lod_regex', flags) \<Rightarrow>
                  (case py_re_fullmatch
                          (collision_prefix @ re_escape asset_name @ lod_regex' @ collision_suffix)
                          mesh_object_name flags of
                     Not_modelled \<Rightarrow> None
                   | Result b \<Rightarrow> Some (Inr b)
                   | Raised_re_error \<Rightarrow>
                       (case py_re_fullmatch basic_pattern mesh_object_name False of
                          Not_modelled \<Rightarrow> None
                        | Raised_re_error \<Rightarrow> Some (Inl PatternError)
                        | Result b \<Rightarrow> Some (Inr b))))))"

text \<open>Property values used in the examples: the pattern \<open>_LOD\d\<close> and variations of it.\<close>

definition lod_digit :: string where
  "lod_digit = ''_LOD'' @ [CHR 0x5C] @ ''d''"

definition props_with :: "bool \<Rightarrow> string \<Rightarrow> properties" where
  "props_with lods pattern = \<lparr>import_lods = lods, import_grooms = False, lod_regex = pattern\<rparr>"

text \<open>
  The expression that the first pattern of \<open>is_collision_of\<close> compiles to, for an asset
  name \<open>a\<close>: \<open>U\<close>, the group of the four shape codes, \<open>_\<close>, the characters of the
  name and the optional group \<open>(_\d+)\<close>.
\<close>

definition collision_codes :: regex where
  "collision_codes =
     Group (Some 1)
       (Alt (seq_of [Lit CHR ''B'', Lit CHR ''X''])
         (Alt (seq_of [Lit CHR ''C'', Lit CHR ''P''])
           (Alt (seq_of [Lit CHR ''S'', Lit CHR ''P''])
             (seq_of [Lit CHR ''C'', Lit CHR ''X'']))))"

definition collision_number :: regex where
  "collision_number = Opt (Group (Some 2) (seq_of [Lit CHR ''_'', Plus (Cat Digit False)]))"

definition basic_collision_regex :: "string \<Rightarrow> regex" where
  "basic_collision_regex a =
     seq_of ([Lit CHR ''U'', collision_codes, Lit CHR ''_''] @ map Lit a @ [collision_number])"

text \<open>
  The first form in the spec's words: \<open>U(BX|CP|SP|CX)_<asset_name>(_<digits>)?\<close>, the
  asset name taken literally.
\<close>

definition collision_first_form :: "string \<Rightarrow> string \<Rightarrow> bool" where
  "collision_first_form asset_name candidate =
     (\<exists>code suffix.
        code \<in> {''BX'', ''CP'', ''SP'', ''CX''} \<and>
        candidate = ''U'' @ code @ ''_'' @ asset_name @ suffix \<and>
        (suffix = [] \<or>
         (\<exists>digits. digits \<noteq> [] \<and> list_all is_digit digits \<and> suffix = ''_'' @ digits)))"

section \<open>Properties of the error reporter\<close>

text \<open>
  Claim C8, as the code has it. \<open>report_error\<close> raises exactly when the message is not
  the \<open>{'WARNING'}\<close> marker and \<open>os.environ.get('SEND2UE_DEV', raise_exception)\<close> is
  true: the variable is set to a non-empty string, or it is not set and the argument
  \<open>raise_exception\<close> (default \<open>True\<close>) is true. The exception is a RuntimeError of
  message and details, and the host is left as it was. Otherwise an error message is
  recorded with its details on the window manager's state, one popup titled Error is
  shown and the call returns; the \<open>{'WARNING'}\<close> marker is only printed.
\<close>

theorem report_error_channels:
  "report_error msg details raise_exception h = (r, h') \<Longrightarrow>
     ((\<exists>e. r = Inl e) \<longleftrightarrow>
        msg \<noteq> Warning_set \<and>
        (case environ h ''SEND2UE_DEV'' of Some v \<Rightarrow> v \<noteq> [] | None \<Rightarrow> raise_exception)) \<and>
     (\<forall>m. msg = Text m \<and> (\<exists>e. r = Inl e) \<longrightarrow> r = Inl (RuntimeError (m @ details)) \<and> h' = h) \<and>
     (\<forall>m. msg = Text m \<and> r = Inr () \<longrightarrow>
        error_message h' = m \<and> error_message_details h' = details \<and>
        popups h' = popups h @ [''Error''] \<and> printed h' = printed h \<and> environ h' = environ h) \<and>
     (msg = Warning_set \<longrightarrow>
        r = Inr () \<and> error_message h' = error_message h \<and>
        error_message_details h' = error_message_details h \<and> popups h' = popups h)"
  by (cases msg) (auto simp: send2ue_dev_def split: if_splits option.splits)

theorem report_error_channels_witness:
  "report_error (Text ''Could not find an open Unreal Editor instance!'') [] False default_host
     = (Inr (), default_host\<lparr>error_message := ''Could not find an open Unreal Editor instance!'',
          error_message_details := [], popups := [''Error'']\<rparr>) \<and>
   environ default_host ''SEND2UE_DEV'' = None \<and>
   popups (snd (report_error (Text ''Could not find an open Unreal Editor instance!'') [] False
     default_host)) = popups default_host @ [''Error'']"
  using report_error_channels [of "Text ''Could not find an open Unreal Editor instance!''" "[]"
    False default_host "Inr ()"
    "default_host\<lparr>error_message := ''Could not find an open Unreal Editor instance!'',
          error_message_details := [], popups := [''Error'']\<rparr>"]
  by (simp add: default_host_def send2ue_dev_def)

text \<open>
  Claim C8 as stated fails: with the variable not set, the default call (the one every
  validation makes) raises instead of showing the popup.
\<close>

theorem report_error_raises_without_dev_variable:
  "environ default_host ''SEND2UE_DEV'' = None \<and>
   report_error (Text ''Scene scale is not 1! Please set it to 1.'') [] True default_host
     = (Inl (RuntimeError ''Scene scale is not 1! Please set it to 1.''), default_host)"
  by (simp add: default_host_def send2ue_dev_def)

section \<open>Properties of the validation pipeline\<close>

lemma until_failure_Nil [simp]: "until_failure cs = [] \<longleftrightarrow> cs = []"
  by (cases cs) auto






lemma until_failure_all_true:
  "list_all (\<lambda>c. snd c = Inr True) cs \<Longrightarrow> until_failure cs = cs"
  by (induction cs) auto




section \<open>Properties of the export collection\<close>

lemma sort_key_names: "map f (sort_key f xs) = sort (map f xs)"
  by (rule sym, rule properties_for_sort) simp_all

lemma filter_key_single:
  "distinct (map f zs) \<Longrightarrow> k \<in> set zs \<Longrightarrow> filter (\<lambda>x. f k = f x) zs = [k]"
proof (induction zs)
  case Nil
  then show ?case by simp
next
  case (Cons z zs)
  show ?case
  proof (cases "k = z")
    case True
    have "filter (\<lambda>x. f z = f x) zs = []"
      using Cons.prems(1) by (auto simp: filter_empty_conv)
    then show ?thesis using True by simp
  next
    case False
    then have "k \<in> set zs" using Cons.prems(2) by simp
    moreover have "f k \<noteq> f z" using Cons.prems(1) \<open>k \<in> set zs\<close> by (auto simp: image_iff)
    ultimately show ?thesis using Cons by simp
  qed
qed

lemma sort_key_perm_distinct:
  assumes "mset xs = mset ys" and "distinct (map f xs)"
  shows "sort_key f xs = sort_key f ys"
proof (rule properties_for_sort_key)
  show "mset (sort_key f ys) = mset xs" using assms by simp
  show "sorted (map f (sort_key f ys))" by simp
  fix k assume k: "k \<in> set (sort_key f ys)"
  have "mset (map f (sort_key f ys)) = mset (map f xs)" using assms(1) by simp
  then have dy: "distinct (map f (sort_key f ys))"
    using assms(2) by (metis mset_eq_imp_distinct_iff)
  have kx: "k \<in> set xs" using k assms(1) by (metis mset_eq_setD set_sort)
  show "filter (\<lambda>x. f k = f x) (sort_key f ys) = filter (\<lambda>x. f k = f x) xs"
    using filter_key_single [OF dy k] filter_key_single [OF assms(2) kx] by simp
qed

text \<open>
  Claim C10. \<open>get_from_collection\<close> returns exactly the objects of the export collection
  that have the requested type, are visible and whose names do not start with a prefix
  token followed by an underscore, each as often as the collection holds it; nothing when
  the collection does not exist. The result is sorted in ascending order of the names.
  The order of the collection does not matter: any rearrangement gives the same sequence
  of names, and the same list when the names are distinct.
\<close>

theorem get_from_collection_sorted:
  "get_from_collection tokens None ty = [] \<and>
   set (get_from_collection tokens (Some xs) ty) =
     {ob \<in> set xs. obj_type ob = ty \<and> visible ob \<and>
        \<not> (\<exists>token \<in> set tokens. startswith (name ob) (token @ ''_''))} \<and>
   mset (get_from_collection tokens (Some xs) ty) =
     filter_mset (\<lambda>ob. obj_type ob = ty \<and> visible ob \<and> \<not> has_prefix_token tokens (name ob)) (mset xs) \<and>
   sorted (map name (get_from_collection tokens (Some xs) ty)) \<and>
   (mset ys = mset xs \<longrightarrow>
      map name (get_from_collection tokens (Some ys) ty) =
        map name (get_from_collection tokens (Some xs) ty) \<and>
      (distinct (map name xs) \<longrightarrow>
         get_from_collection tokens (Some ys) ty = get_from_collection tokens (Some xs) ty))"
proof -
  let ?keep = "\<lambda>ob. obj_type ob = ty \<and> visible ob \<and> \<not> has_prefix_token tokens (name ob)"
  have none: "get_from_collection tokens None ty = []"
    by (simp add: get_from_collection_def)
  have some: "get_from_collection tokens (Some zs) ty = sort_key name (filter ?keep zs)" for zs
    by (simp add: get_from_collection_def)
  have members: "set (get_from_collection tokens (Some xs) ty) =
     {ob \<in> set xs. obj_type ob = ty \<and> visible ob \<and>
        \<not> (\<exists>token \<in> set tokens. startswith (name ob) (token @ ''_''))}"
    by (auto simp: some has_prefix_token_def list_ex_iff)
  have count: "mset (get_from_collection tokens (Some xs) ty) = filter_mset ?keep (mset xs)"
    by (simp add: some)
  have sorted: "sorted (map name (get_from_collection tokens (Some xs) ty))"
    by (simp add: some)
  have perm: "mset ys = mset xs \<longrightarrow>
      map name (get_from_collection tokens (Some ys) ty) =
        map name (get_from_collection tokens (Some xs) ty) \<and>
      (distinct (map name xs) \<longrightarrow>
         get_from_collection tokens (Some ys) ty = get_from_collection tokens (Some xs) ty)"
  proof
    assume eq: "mset ys = mset xs"
    have feq: "mset (filter ?keep ys) = mset (filter ?keep xs)" using eq by simp
    have "mset (sort (map name (filter ?keep xs))) = mset (map name (filter ?keep ys))"
      using eq by simp
    then have names: "sort (map name (filter ?keep ys)) = sort (map name (filter ?keep xs))"
      by (rule properties_for_sort) simp
    have same: "sort_key name (filter ?keep ys) = sort_key name (filter ?keep xs)"
      if "distinct (map name xs)"
    proof -
      have "distinct (map name (filter ?keep xs))"
        using that by (rule distinct_map_filter)
      then show ?thesis by (rule sort_key_perm_distinct [OF feq [symmetric], symmetric])
    qed
    have "map name (get_from_collection tokens (Some ys) ty) =
        map name (get_from_collection tokens (Some xs) ty)"
      using names by (simp only: some sort_key_names)
    moreover have "distinct (map name xs) \<longrightarrow>
         get_from_collection tokens (Some ys) ty = get_from_collection tokens (Some xs) ty"
      using same by (simp only: some) blast
    ultimately show "map name (get_from_collection tokens (Some ys) ty) =
        map name (get_from_collection tokens (Some xs) ty) \<and>
      (distinct (map name xs) \<longrightarrow>
         get_from_collection tokens (Some ys) ty = get_from_collection tokens (Some xs) ty)"
      by (rule conjI)
  qed
  show ?thesis by (intro conjI) (fact none members count sorted perm)+
qed

theorem get_from_collection_sorted_witness:
  "get_from_collection collision_tokens
      (Some [mk_object ''Table'' ''MESH'' True, mk_object ''Chair'' ''MESH'' True,
             mk_object ''UBX_Chair'' ''MESH'' True, mk_object ''Lamp'' ''MESH'' False,
             mk_object ''Rig'' ''ARMATURE'' True]) ''MESH''
     = [mk_object ''Chair'' ''MESH'' True, mk_object ''Table'' ''MESH'' True] \<and>
   get_from_collection collision_tokens
      (Some [mk_object ''Rig'' ''ARMATURE'' True, mk_object ''Chair'' ''MESH'' True,
             mk_object ''Lamp'' ''MESH'' False, mk_object ''UBX_Chair'' ''MESH'' True,
             mk_object ''Table'' ''MESH'' True]) ''MESH''
     = [mk_object ''Chair'' ''MESH'' True, mk_object ''Table'' ''MESH'' True]"
proof -
  let ?xs = "[mk_object ''Table'' ''MESH'' True, mk_object ''Chair'' ''MESH'' True,
             mk_object ''UBX_Chair'' ''MESH'' True, mk_object ''Lamp'' ''MESH'' False,
             mk_object ''Rig'' ''ARMATURE'' True]"
  let ?ys = "[mk_object ''Rig'' ''ARMATURE'' True, mk_object ''Chair'' ''MESH'' True,
             mk_object ''Lamp'' ''MESH'' False, mk_object ''UBX_Chair'' ''MESH'' True,
             mk_object ''Table'' ''MESH'' True]"
  have first: "get_from_collection collision_tokens (Some ?xs) ''MESH''
     = [mk_object ''Chair'' ''MESH'' True, mk_object ''Table'' ''MESH'' True]"
    by code_simp
  have perm: "mset ?ys = mset ?xs" by (simp add: mk_object_def)
  have names: "distinct (map name ?xs)" by (simp add: mk_object_def)
  show ?thesis
    using get_from_collection_sorted [of collision_tokens "''MESH''" ?xs ?ys] first perm names
    by (simp only:)
qed

section \<open>Properties of the export context\<close>











section \<open>Properties of matching and replacing\<close>

lemma matches_Star:
  "(j, c') \<in> set (matches ic s (Star a) i c) \<longleftrightarrow>
     (j, c') = (i, c) \<or>
     (\<exists>k ck. (k, ck) \<in> set (matches ic s a i c) \<and> i < k \<and> k \<le> length s \<and>
        (j, c') \<in> set (matches ic s (Star a) k ck))"
  by (subst matches.simps(9)) (auto split: if_splits)

lemma matches_bounds:
  "i \<le> length s \<Longrightarrow> caps_ok s c \<Longrightarrow> (j, c') \<in> set (matches ic s r i c) \<Longrightarrow>
     i \<le> j \<and> j \<le> length s \<and> caps_ok s c'"
proof (induction ic s r i c arbitrary: j c' rule: matches.induct)
  case (7 ic s a b i c)
  from "7.prems"(3) obtain k ck where k: "(k, ck) \<in> set (matches ic s a i c)"
    and j: "(j, c') \<in> set (matches ic s b k ck)"
    by auto
  from "7.IH"(1) [OF "7.prems"(1,2) k] have a: "i \<le> k" "k \<le> length s" "caps_ok s ck" by auto
  from "7.IH"(2) [OF k refl a(2,3) j] show ?case using a by auto
next
  case (9 ic s a i c)
  show ?case
  proof (cases "(j, c') = (i, c)")
    case True
    then show ?thesis using "9.prems" by auto
  next
    case False
    with "9.prems"(3) obtain k ck where k: "(k, ck) \<in> set (matches ic s a i c)"
      and g: "i < k" "k \<le> length s"
      and j: "(j, c') \<in> set (matches ic s (Star a) k ck)"
      unfolding matches_Star [of j c' ic s a i c] by blast
    from "9.IH"(1) [OF "9.prems"(1,2) k] have a: "caps_ok s ck" by auto
    from "9.IH"(2) [OF k refl _ g(2) a j] g show ?thesis by auto
  qed
next
  case (10 ic s a i c)
  from "10.prems"(3) obtain k ck where k: "(k, ck) \<in> set (matches ic s a i c)"
    and j: "(j, c') \<in> set (matches ic s (Star a) k ck)"
    by auto
  from "10.IH"(1) [OF "10.prems"(1,2) k] have a: "i \<le> k" "k \<le> length s" "caps_ok s ck" by auto
  from "10.IH"(2) [OF k refl a(2,3) j] show ?case using a by auto
next
  case (12 ic s g a i c)
  from "12.prems"(3) obtain ck where k: "(j, ck) \<in> set (matches ic s a i c)"
    and c': "c' = (case g of None \<Rightarrow> ck | Some n \<Rightarrow> (n, i, j) # ck)"
    by auto
  from "12.IH" [OF "12.prems"(1,2) k] show ?case using c'
    by (auto simp: caps_ok_def split: option.splits)
qed (auto split: if_splits)


lemma search_from_bounds:
  "i \<le> length s \<Longrightarrow> i + k \<le> length s \<Longrightarrow> search_from ic s r i k = Some mo \<Longrightarrow>
     i \<le> m_start mo \<and> m_start mo \<le> m_end mo \<and> m_end mo \<le> length s \<and> caps_ok s (m_caps mo)"
proof (induction k arbitrary: i)
  case 0
  then obtain j c rest where m: "matches ic s r i [] = (j, c) # rest"
    and mo: "mo = \<lparr>m_start = i, m_end = j, m_caps = c\<rparr>"
    by (auto split: list.splits)
  have "(j, c) \<in> set (matches ic s r i [])" using m by simp
  from matches_bounds [OF "0.prems"(1) _ this] mo show ?case by (simp add: caps_ok_def)
next
  case (Suc k)
  show ?case
  proof (cases "matches ic s r i []")
    case Nil
    with Suc.prems have "search_from ic s r (Suc i) k = Some mo" by simp
    from Suc.IH [OF _ _ this] Suc.prems show ?thesis by auto
  next
    case (Cons p rest)
    obtain j c where p: "p = (j, c)" by (cases p)
    with Cons Suc.prems have mo: "mo = \<lparr>m_start = i, m_end = j, m_caps = c\<rparr>" by simp
    have "(j, c) \<in> set (matches ic s r i [])" using Cons p by simp
    from matches_bounds [OF Suc.prems(1) _ this] mo show ?thesis by (simp add: caps_ok_def)
  qed
qed

lemma re_search_bounds:
  "re_search ic r s = Some mo \<Longrightarrow>
     m_start mo \<le> m_end mo \<and> m_end mo \<le> length s \<and> caps_ok s (m_caps mo)"
  using search_from_bounds [of 0 s "length s" ic r mo] by (simp add: re_search_def)

lemma group_text_part:
  assumes "caps_ok s c" and "group_text s c g = Some t"
  shows "\<exists>xs ys. s = xs @ t @ ys"
proof -
  from assms(2) obtain a b where ab: "map_of c g = Some (a, b)" and t: "t = take (b - a) (drop a s)"
    by (auto simp: group_text_def split: option.splits)
  have "s = take a s @ take (b - a) (drop a s) @ drop (b - a) (drop a s)"
    by (simp only: append_take_drop_id)
  then show ?thesis using t by blast
qed

lemma groups_parts:
  assumes "re_search ic r s = Some mo" and "Some t \<in> set (groups s n mo)"
  shows "\<exists>xs ys. s = xs @ t @ ys"
proof -
  from assms(2) obtain g where "group_text s (m_caps mo) g = Some t"
    by (auto simp: groups_def)
  with re_search_bounds [OF assms(1)] show ?thesis using group_text_part by blast
qed

lemma startswith_append: "startswith s p \<Longrightarrow> s = p @ drop (length p) s"
  by (metis append_take_drop_id startswith_def)

lemma replace_from_length:
  "length new = length old \<Longrightarrow> length (replace_from old new s) = length s"
proof (induction old new s rule: replace_from.induct)
  case (1 old new s)
  show ?case
  proof (cases "old = [] \<or> s = []")
    case True
    then show ?thesis by (subst replace_from.simps) simp
  next
    case False
    show ?thesis
    proof (cases "startswith s old")
      case True
      have "length old \<le> length s" using True
        by (metis startswith_def length_take min.cobounded2 min_def nat_le_linear)
      then show ?thesis using False True "1.IH"(1) "1.prems"
        by (subst replace_from.simps) simp
    next
      case no: False
      then show ?thesis using False "1.IH"(2) "1.prems"
        by (subst replace_from.simps) (cases s; simp)
    qed
  qed
qed

lemma replace_from_final_chars:
  "old \<noteq> [] \<Longrightarrow> i < length s \<Longrightarrow>
     replace_from old (butlast old @ [z]) s ! i = s ! i \<or> replace_from old (butlast old @ [z]) s ! i = z"
proof (induction old "butlast old @ [z]" s arbitrary: i rule: replace_from.induct)
  case (1 old s)
  let ?new = "butlast old @ [z]"
  have len: "length ?new = length old" using "1.prems"(1) by simp
  have s: "s \<noteq> []" using "1.prems"(2) by auto
  show ?case
  proof (cases "startswith s old")
    case True
    let ?rest = "drop (length old) s"
    have eq: "replace_from old ?new s = ?new @ replace_from old ?new ?rest"
      using "1.prems"(1) s True by (subst replace_from.simps) simp
    have sp: "s = old @ ?rest" using True by (rule startswith_append)
    show ?thesis
    proof (cases "i < length old")
      case True
      then have "i < length ?new" using len by simp
      then have res: "replace_from old ?new s ! i = ?new ! i"
        unfolding eq by (rule nth_append_left)
      show ?thesis
      proof (cases "i < length old - 1")
        case True
        then have "i < length (butlast old)" by simp
        then have "?new ! i = old ! i" by (simp add: nth_append nth_butlast)
        moreover have "s ! i = old ! i" using sp \<open>i < length old\<close> by (metis nth_append)
        ultimately show ?thesis using res by simp
      next
        case False
        then have "i = length (butlast old)" using \<open>i < length old\<close> by simp
        then have "?new ! i = z" by (simp only: nth_append_length)
        then show ?thesis using res by simp
      qed
    next
      case False
      then have i: "i - length old < length ?rest" using "1.prems"(2) by simp
      from "1.hyps"(1) [OF _ True "1.prems"(1) i] "1.prems"(1) s
      have "replace_from old ?new ?rest ! (i - length old) = ?rest ! (i - length old) \<or>
            replace_from old ?new ?rest ! (i - length old) = z" by simp
      moreover have "?rest ! (i - length old) = s ! i" using False "1.prems"(2) by simp
      ultimately show ?thesis using eq False len by (simp add: nth_append)
    qed
  next
    case False
    have eq: "replace_from old ?new s = hd s # replace_from old ?new (tl s)"
      using "1.prems"(1) s False by (subst replace_from.simps) simp
    show ?thesis
    proof (cases i)
      case 0
      then show ?thesis using eq s by (simp add: hd_conv_nth)
    next
      case (Suc k)
      then have k: "k < length (tl s)" using "1.prems"(2) by simp
      from "1.hyps"(2) [OF _ False "1.prems"(1) k] "1.prems"(1) s
      have "replace_from old ?new (tl s) ! k = tl s ! k \<or> replace_from old ?new (tl s) ! k = z"
        by simp
      moreover have "tl s ! k = s ! i" using k Suc by (simp add: nth_tl)
      ultimately show ?thesis using eq Suc by simp
    qed
  qed
qed

section \<open>The matcher and the language of an expression\<close>

lemma occurs_append:
  assumes "i + length xs + length ys \<le> length s"
  shows "take (length (xs @ ys)) (drop i s) = xs @ ys \<longleftrightarrow>
     take (length xs) (drop i s) = xs \<and> take (length ys) (drop (i + length xs) s) = ys"
proof -
  have "take (length xs + length ys) (drop i s) =
      take (length xs) (drop i s) @ take (length ys) (drop (i + length xs) s)"
    by (simp add: take_add add.commute)
  moreover have "length (take (length xs) (drop i s)) = length xs" using assms by simp
  ultimately show ?thesis by auto
qed

lemma occurs_single: "i < length s \<Longrightarrow> take (Suc 0) (drop i s) = [s ! i]"
  by (simp add: take_Suc_conv_app_nth)

lemma matches_sound:
  "(j, c') \<in> set (matches ic s r i c) \<Longrightarrow> anchor_free r \<Longrightarrow> i \<le> length s \<Longrightarrow>
     \<exists>w. w \<in> lang ic r \<and> j = i + length w \<and> j \<le> length s \<and> take (length w) (drop i s) = w"
proof (induction ic s r i c arbitrary: j c' rule: matches.induct)
  case (1 ic s i c)
  then show ?case by simp
next
  case (2 ic s a i c)
  then have "i < length s" "char_eq ic (s ! i) a" "j = Suc i" by (auto split: if_splits)
  then show ?case by (intro exI [of _ "[s ! i]"]) (simp add: occurs_single)
next
  case (3 ic s k neg i c)
  then have "i < length s" "in_category k (s ! i) \<noteq> neg" "j = Suc i" by (auto split: if_splits)
  then show ?case by (intro exI [of _ "[s ! i]"]) (simp add: occurs_single)
next
  case (4 ic s i c)
  then have "i < length s" "s ! i \<noteq> CHR 0x0A" "j = Suc i" by (auto split: if_splits)
  then show ?case by (intro exI [of _ "[s ! i]"]) (simp add: occurs_single)
next
  case (5 ic s i c)
  then show ?case by simp
next
  case (6 ic s i c)
  then show ?case by simp
next
  case (7 ic s a b i c)
  from "7.prems"(1) obtain k ck where k: "(k, ck) \<in> set (matches ic s a i c)"
    and j: "(j, c') \<in> set (matches ic s b k ck)"
    by auto
  from "7.IH"(1) [OF k] "7.prems" obtain u where u: "u \<in> lang ic a" "k = i + length u"
    "k \<le> length s" "take (length u) (drop i s) = u" by auto
  from "7.IH"(2) [OF k refl j] "7.prems" u(3) obtain v where v: "v \<in> lang ic b"
    "j = k + length v" "j \<le> length s" "take (length v) (drop k s) = v" by auto
  have "take (length (u @ v)) (drop i s) = u @ v"
    using u v occurs_append [of i u v s] by simp
  moreover have "u @ v \<in> lang ic (Seq a b)" using u(1) v(1) by (auto simp: conc_def)
  ultimately show ?case using u v by (intro exI [of _ "u @ v"]) simp
next
  case (8 ic s a b i c)
  from "8.prems"(1) consider "(j, c') \<in> set (matches ic s a i c)" | "(j, c') \<in> set (matches ic s b i c)"
    by auto
  then show ?case
  proof cases
    case 1
    from "8.IH"(1) [OF 1] "8.prems" show ?thesis by auto
  next
    case 2
    from "8.IH"(2) [OF 2] "8.prems" show ?thesis by auto
  qed
next
  case (9 ic s a i c)
  show ?case
  proof (cases "(j, c') = (i, c)")
    case True
    then show ?thesis using "9.prems" by (intro exI [of _ "[]"]) (simp add: star_empty)
  next
    case False
    with "9.prems"(1) obtain k ck where k: "(k, ck) \<in> set (matches ic s a i c)"
      and g: "i < k" "k \<le> length s"
      and j: "(j, c') \<in> set (matches ic s (Star a) k ck)"
      unfolding matches_Star [of j c' ic s a i c] by blast
    from "9.IH"(1) [OF k] "9.prems" obtain u where u: "u \<in> lang ic a" "k = i + length u"
      "take (length u) (drop i s) = u" by auto
    have g': "i < k \<and> k \<le> length s" using g by simp
    from "9.IH"(2) [OF k refl g' j] g "9.prems" obtain v where v: "v \<in> star (lang ic a)"
      "j = k + length v" "j \<le> length s" "take (length v) (drop k s) = v" by auto
    have "u \<noteq> []" using u(2) g(1) by auto
    then have "u @ v \<in> lang ic (Star a)" using u(1) v(1) by (simp add: star_step)
    moreover have "take (length (u @ v)) (drop i s) = u @ v"
      using u v occurs_append [of i u v s] by simp
    ultimately show ?thesis using u v by (intro exI [of _ "u @ v"]) simp
  qed
next
  case (10 ic s a i c)
  from "10.prems"(1) obtain k ck where k: "(k, ck) \<in> set (matches ic s a i c)"
    and j: "(j, c') \<in> set (matches ic s (Star a) k ck)"
    by auto
  from "10.IH"(1) [OF k] "10.prems" obtain u where u: "u \<in> lang ic a" "k = i + length u"
    "k \<le> length s" "take (length u) (drop i s) = u" by auto
  from "10.IH"(2) [OF k refl j] "10.prems" u(3) obtain v where v: "v \<in> star (lang ic a)"
    "j = k + length v" "j \<le> length s" "take (length v) (drop k s) = v" by auto
  have "take (length (u @ v)) (drop i s) = u @ v"
    using u v occurs_append [of i u v s] by simp
  moreover have "u @ v \<in> lang ic (Plus a)" using u(1) v(1) by (auto simp: conc_def)
  ultimately show ?case using u v by (intro exI [of _ "u @ v"]) simp
next
  case (11 ic s a i c)
  show ?case
  proof (cases "(j, c') \<in> set (matches ic s a i c)")
    case True
    from "11.IH" [OF True] "11.prems" show ?thesis by auto
  next
    case False
    then have "j = i" using "11.prems"(1) by simp
    then show ?thesis using "11.prems" by (intro exI [of _ "[]"]) simp
  qed
next
  case (12 ic s g a i c)
  from "12.prems"(1) obtain ck where "(j, ck) \<in> set (matches ic s a i c)" by auto
  from "12.IH" [OF this] "12.prems" show ?case by auto
qed

lemma in_matches_Seq:
  "(j, c') \<in> set (matches ic s (Seq a b) i c) \<longleftrightarrow>
     (\<exists>k ck. (k, ck) \<in> set (matches ic s a i c) \<and> (j, c') \<in> set (matches ic s b k ck))"
  by auto

lemma in_matches_Plus:
  "(j, c') \<in> set (matches ic s (Plus a) i c) \<longleftrightarrow>
     (\<exists>k ck. (k, ck) \<in> set (matches ic s a i c) \<and> (j, c') \<in> set (matches ic s (Star a) k ck))"
  by auto

lemma in_matches_Group:
  "(\<exists>c'. (j, c') \<in> set (matches ic s (Group g a) i c)) \<longleftrightarrow>
     (\<exists>c'. (j, c') \<in> set (matches ic s a i c))"
proof (cases g)
  case None
  then show ?thesis by simp
next
  case (Some n)
  have "(\<exists>c'. (j, c') \<in> set (matches ic s (Group (Some n) a) i c)) \<longleftrightarrow>
      (\<exists>c'. (j, c') \<in> (\<lambda>(j, c'). (j, (n, i, j) # c')) ` set (matches ic s a i c))"
    by simp
  also have "\<dots> \<longleftrightarrow> (\<exists>c'. (j, c') \<in> set (matches ic s a i c))"
    by force
  finally show ?thesis using Some by simp
qed

lemma matches_star_complete:
  assumes body: "\<And>w i c. w \<in> lang ic a \<Longrightarrow> i + length w \<le> length s \<Longrightarrow>
      take (length w) (drop i s) = w \<Longrightarrow> \<exists>c'. (i + length w, c') \<in> set (matches ic s a i c)"
  shows "w \<in> star (lang ic a) \<Longrightarrow> i + length w \<le> length s \<Longrightarrow>
      take (length w) (drop i s) = w \<Longrightarrow> \<exists>c'. (i + length w, c') \<in> set (matches ic s (Star a) i c)"
proof (induction w arbitrary: i c rule: star.induct)
  case star_empty
  have "(i, c) \<in> set (matches ic s (Star a) i c)" by (subst matches_Star) simp
  then show ?case by auto
next
  case (star_step u v)
  have len: "i + length u + length v \<le> length s" using star_step.prems(1) by simp
  from star_step.prems(2) have u: "take (length u) (drop i s) = u"
    and v: "take (length v) (drop (i + length u) s) = v"
    using occurs_append [OF len] by simp_all
  from body [OF star_step.hyps(1) _ u, of c] len obtain ck where
    ck: "(i + length u, ck) \<in> set (matches ic s a i c)" by auto
  from star_step.IH [OF _ v, of ck] len obtain c' where
    c': "(i + length u + length v, c') \<in> set (matches ic s (Star a) (i + length u) ck)" by auto
  have "i < i + length u" "i + length u \<le> length s" using star_step.hyps(2) len by simp_all
  then have "\<exists>k ck. (k, ck) \<in> set (matches ic s a i c) \<and> i < k \<and> k \<le> length s \<and>
        (i + length u + length v, c') \<in> set (matches ic s (Star a) k ck)"
    using ck c' by blast
  then have "(i + length u + length v, c') \<in> set (matches ic s (Star a) i c)"
    by (subst matches_Star) simp
  then show ?case by (auto simp: add.assoc)
qed

lemma matches_complete:
  "w \<in> lang ic r \<Longrightarrow> anchor_free r \<Longrightarrow> i + length w \<le> length s \<Longrightarrow>
     take (length w) (drop i s) = w \<Longrightarrow> \<exists>c'. (i + length w, c') \<in> set (matches ic s r i c)"
proof (induction r arbitrary: w i c)
  case Eps
  then show ?case by simp
next
  case (Lit a)
  then obtain d where d: "w = [d]" "char_eq ic d a" by auto
  with Lit.prems have "i < length s" "s ! i = d" by (auto simp: take_Suc_conv_app_nth)
  then show ?case using d by simp
next
  case (Cat k neg)
  then obtain d where d: "w = [d]" "in_category k d \<noteq> neg" by auto
  with Cat.prems have "i < length s" "s ! i = d" by (auto simp: take_Suc_conv_app_nth)
  then show ?case using d by simp
next
  case Dot
  then obtain d where d: "w = [d]" "d \<noteq> CHR 0x0A" by auto
  with Dot.prems have "i < length s" "s ! i = d" by (auto simp: take_Suc_conv_app_nth)
  then show ?case using d by simp
next
  case Bol
  then show ?case by simp
next
  case Eol
  then show ?case by simp
next
  case (Seq a b)
  from Seq.prems(1) obtain u v where w: "w = u @ v" and u: "u \<in> lang ic a" and v: "v \<in> lang ic b"
    by (auto simp: conc_def)
  have len: "i + length u + length v \<le> length s" using Seq.prems(3) w by simp
  from Seq.prems(4) w have tu: "take (length u) (drop i s) = u"
    and tv: "take (length v) (drop (i + length u) s) = v"
    using occurs_append [OF len] by simp_all
  from Seq.IH(1) [OF u _ _ tu, of c] Seq.prems(2) len obtain ck where
    ck: "(i + length u, ck) \<in> set (matches ic s a i c)" by auto
  from Seq.IH(2) [OF v _ _ tv, of ck] Seq.prems(2) len obtain c' where
    "(i + length u + length v, c') \<in> set (matches ic s b (i + length u) ck)" by auto
  then have "(i + length w, c') \<in> set (matches ic s (Seq a b) i c)"
    unfolding in_matches_Seq using ck w by (auto simp: add.assoc)
  then show ?case by blast
next
  case (Alt a b)
  from Alt.prems(1) consider "w \<in> lang ic a" | "w \<in> lang ic b" by auto
  then show ?case
  proof cases
    case 1
    from Alt.IH(1) [OF 1 _ Alt.prems(3,4), of c] Alt.prems(2) show ?thesis by auto
  next
    case 2
    from Alt.IH(2) [OF 2 _ Alt.prems(3,4), of c] Alt.prems(2) show ?thesis by auto
  qed
next
  case (Star a)
  have body: "\<exists>c'. (i + length w, c') \<in> set (matches ic s a i c)"
    if "w \<in> lang ic a" "i + length w \<le> length s" "take (length w) (drop i s) = w" for w i c
    using Star.IH [OF that(1) _ that(2,3), of c] Star.prems(2) by (simp only: anchor_free.simps)
  from Star.prems(1) have sw: "w \<in> star (lang ic a)" by (simp only: lang.simps)
  show ?case by (rule matches_star_complete [OF body sw Star.prems(3,4)])
next
  case (Plus a)
  have af: "anchor_free a" using Plus.prems(2) by (simp only: anchor_free.simps)
  have body: "\<exists>c'. (i + length w, c') \<in> set (matches ic s a i c)"
    if "w \<in> lang ic a" "i + length w \<le> length s" "take (length w) (drop i s) = w" for w i c
    by (rule Plus.IH [OF that(1) af that(2,3)])
  from Plus.prems(1) have "w \<in> conc (lang ic a) (star (lang ic a))" by (simp only: lang.simps)
  then obtain u v where w: "w = u @ v" and u: "u \<in> lang ic a"
    and v: "v \<in> star (lang ic a)"
    unfolding conc_def by blast
  have len: "i + length u + length v \<le> length s" using Plus.prems(3) w by simp
  from Plus.prems(4) w have tu: "take (length u) (drop i s) = u"
    and tv: "take (length v) (drop (i + length u) s) = v"
    using occurs_append [OF len] by simp_all
  have lu: "i + length u \<le> length s" using len by simp
  from body [OF u lu tu, of c] obtain ck where
    ck: "(i + length u, ck) \<in> set (matches ic s a i c)" by blast
  from matches_star_complete [OF body v len tv, of ck] obtain c' where
    c': "(i + length u + length v, c') \<in> set (matches ic s (Star a) (i + length u) ck)" by blast
  have "(i + length u + length v, c') \<in> set (matches ic s (Plus a) i c)"
    unfolding in_matches_Plus using ck c' by blast
  then show ?case using w by (auto simp: add.assoc)
next
  case (Opt a)
  show ?case
  proof (cases "w \<in> lang ic a")
    case True
    from Opt.IH [OF True _ Opt.prems(3,4), of c] Opt.prems(2) show ?thesis by auto
  next
    case False
    then have "w = []" using Opt.prems(1) by simp
    moreover have "(i, c) \<in> set (matches ic s (Opt a) i c)" by simp
    ultimately show ?thesis by auto
  qed
next
  case (Group g a)
  from Group.IH [OF _ _ Group.prems(3,4), of c] Group.prems(1,2) have
    "\<exists>c'. (i + length w, c') \<in> set (matches ic s a i c)" by auto
  then show ?case by (simp only: in_matches_Group)
qed

text \<open>
  For an expression without anchors, \<open>re.fullmatch\<close> finds a match exactly for the
  strings of the expression's language, with or without \<open>re.IGNORECASE\<close>.
\<close>

lemma re_fullmatch_lang:
  assumes "anchor_free r"
  shows "re_fullmatch ic r s \<noteq> None \<longleftrightarrow> s \<in> lang ic r"
proof
  assume "re_fullmatch ic r s \<noteq> None"
  then have "filter (\<lambda>(j, c). j = length s) (matches ic s r 0 []) \<noteq> []"
    by (auto simp: re_fullmatch_def split: list.splits)
  then obtain c' where "(length s, c') \<in> set (matches ic s r 0 [])"
    by (auto simp: filter_empty_conv)
  from matches_sound [OF this assms] show "s \<in> lang ic r" by auto
next
  assume "s \<in> lang ic r"
  from matches_complete [OF this assms, of 0 s "[]"] obtain c' where
    "(length s, c') \<in> set (matches ic s r 0 [])" by auto
  then have "filter (\<lambda>(j, c). j = length s) (matches ic s r 0 []) \<noteq> []"
    by (auto simp: filter_empty_conv)
  then show "re_fullmatch ic r s \<noteq> None"
    by (auto simp: re_fullmatch_def split: list.splits)
qed

section \<open>Exceptions that leave the naming utilities\<close>

text \<open>
  Claim C4. The naming utilities are meant never to raise for any \<open>lod_regex\<close>, and the
  code fails to: with the pattern \<open>_LOD(\d)?\<close> the name \<open>Prop_LOD\<close> matches with the
  pattern's last group taking no part, so \<open>result.groups()[-1]\<close> is \<open>None\<close> and both
  \<open>get_lod0_name\<close> and \<open>get_lod_index\<close> raise TypeError, which their \<open>except\<close> clauses
  do not list. With the pattern \<open>?:_LOD\d\<close> the parenthesis that \<open>get_asset_name\<close> puts
  around it becomes a non-capturing group, \<open>result.groups()\<close> is empty and
  \<open>result.groups()[0]\<close> raises IndexError past \<open>except re.error\<close>.
\<close>

theorem naming_utilities_raise:
  "get_lod0_name ''Prop_LOD'' (props_with True (''_LOD('' @ [CHR 0x5C] @ ''d)?'')) = Some (Inl TypeError) \<and>
   get_lod_index ''Prop_LOD'' (props_with True (''_LOD('' @ [CHR 0x5C] @ ''d)?'')) = Some (Inl TypeError) \<and>
   get_asset_name ''Prop_LOD1'' (props_with True (''?:'' @ lod_digit)) False = Some (Inl IndexError)"
  by code_simp

section \<open>Properties of the LOD names\<close>

lemma py_replace_final_chars:
  assumes "lod \<noteq> []"
  shows "length (py_replace asset_name lod (butlast lod @ ''0'')) = length asset_name \<and>
     (\<forall>i<length asset_name. py_replace asset_name lod (butlast lod @ ''0'') ! i = asset_name ! i \<or>
        py_replace asset_name lod (butlast lod @ ''0'') ! i = CHR ''0'')"
  using assms replace_from_length [of "butlast lod @ ''0''" lod asset_name]
    replace_from_final_chars [of lod _ asset_name "CHR ''0''"]
  by (simp add: py_replace_def)

text \<open>
  Claim C6, as the code has it. \<open>get_lod0_name\<close> searches the name for the pattern in
  parentheses. When the pattern does not compile or nothing matches, the name is returned
  unchanged. When the first match is found and the last group of the pattern captured the
  text \<open>lod\<close>, a part of the name, the result is the name with every occurrence of
  \<open>lod\<close> replaced by \<open>lod\<close> with its final character replaced by \<open>0\<close>; for a
  non-empty \<open>lod\<close> the result has the length of the name and differs from it only in
  characters that became \<open>0\<close>.
\<close>

theorem get_lod0_name_result:
  assumes "extract_regex_flags (lod_regex props) = (p, ic)"
  shows "(py_re_search (''('' @ p @ '')'') asset_name ic = Raised_re_error \<or>
      py_re_search (''('' @ p @ '')'') asset_name ic = Result None
        \<longrightarrow> get_lod0_name asset_name props = Some (Inr asset_name)) \<and>
     (\<forall>gs lod. py_re_search (''('' @ p @ '')'') asset_name ic = Result (Some gs) \<and> gs \<noteq> [] \<and>
        last gs = Some lod \<longrightarrow>
          get_lod0_name asset_name props = Some (Inr (py_replace asset_name lod (butlast lod @ ''0''))) \<and>
          (\<exists>xs ys. asset_name = xs @ lod @ ys) \<and>
          (lod \<noteq> [] \<longrightarrow>
             length (py_replace asset_name lod (butlast lod @ ''0'')) = length asset_name \<and>
             (\<forall>i<length asset_name. py_replace asset_name lod (butlast lod @ ''0'') ! i = asset_name ! i \<or>
                py_replace asset_name lod (butlast lod @ ''0'') ! i = CHR ''0'')))"
proof -
  let ?out = "py_re_search (''('' @ p @ '')'') asset_name ic"
  have unchanged: "?out = Raised_re_error \<or> ?out = Result None
        \<longrightarrow> get_lod0_name asset_name props = Some (Inr asset_name)"
    using assms by (auto simp: get_lod0_name_def)
  have replaced: "get_lod0_name asset_name props =
        Some (Inr (py_replace asset_name lod (butlast lod @ ''0''))) \<and>
      (\<exists>xs ys. asset_name = xs @ lod @ ys)"
    if a: "?out = Result (Some gs) \<and> gs \<noteq> [] \<and> last gs = Some lod" for gs lod
  proof
    show "get_lod0_name asset_name props = Some (Inr (py_replace asset_name lod (butlast lod @ ''0'')))"
      using a assms by (simp add: get_lod0_name_def)
    from a obtain r n mo where "re_search ic r asset_name = Some mo"
      and "gs = groups asset_name n mo"
      by (auto simp: py_re_search_def split: compile_result.splits)
    moreover have "Some lod \<in> set gs" using a by (metis last_in_set)
    ultimately show "\<exists>xs ys. asset_name = xs @ lod @ ys" using groups_parts by blast
  qed
  show ?thesis using unchanged replaced py_replace_final_chars by blast
qed

theorem get_lod0_name_result_witness:
  "extract_regex_flags (lod_regex (props_with True lod_digit)) = (lod_digit, False) \<and>
   py_re_search (''('' @ lod_digit @ '')'') ''Prop_LOD2'' False = Result (Some [Some ''_LOD2'']) \<and>
   get_lod0_name ''Prop_LOD2'' (props_with True lod_digit) = Some (Inr ''Prop_LOD0'') \<and>
   get_lod0_name ''Prop'' (props_with True lod_digit) = Some (Inr ''Prop'')"
proof -
  have e: "extract_regex_flags (lod_regex (props_with True lod_digit)) = (lod_digit, False)"
    by code_simp
  have s: "py_re_search (''('' @ lod_digit @ '')'') ''Prop_LOD2'' False = Result (Some [Some ''_LOD2''])"
    by code_simp
  have n: "py_re_search (''('' @ lod_digit @ '')'') ''Prop'' False = Result None"
    by code_simp
  have r: "py_replace ''Prop_LOD2'' ''_LOD2'' (butlast ''_LOD2'' @ ''0'') = ''Prop_LOD0''"
    by code_simp
  have "get_lod0_name ''Prop_LOD2'' (props_with True lod_digit) =
      Some (Inr (py_replace ''Prop_LOD2'' ''_LOD2'' (butlast ''_LOD2'' @ ''0'')))"
    using get_lod0_name_result [OF e, of "''Prop_LOD2''"] s by simp
  moreover have "get_lod0_name ''Prop'' (props_with True lod_digit) = Some (Inr ''Prop'')"
    using get_lod0_name_result [OF e, of "''Prop''"] n by simp
  ultimately show ?thesis using e s r by (simp only:)
qed

text \<open>
  Claim C6 as stated fails. With the pattern \<open>_(LOD)\d\<close> the match in \<open>Prop_LOD2\<close>
  is \<open>_LOD2\<close>, but the last group is \<open>LOD\<close> and the result is \<open>Prop_LO02\<close>, not
  \<open>Prop_LOD0\<close>. With the pattern \<open>_LOD\d\<close> the match in \<open>Prop_LOD2_LOD2\<close> is the
  substring from position 4 to 9, and the result has the later occurrence changed as well.
\<close>

theorem get_lod0_name_replaces_other_text:
  "py_re_search (''(_(LOD)'' @ [CHR 0x5C] @ ''d)'') ''Prop_LOD2'' False
     = Result (Some [Some ''_LOD2'', Some ''LOD'']) \<and>
   get_lod0_name ''Prop_LOD2'' (props_with True (''_(LOD)'' @ [CHR 0x5C] @ ''d'')) = Some (Inr ''Prop_LO02'') \<and>
   (case re_compile (''('' @ lod_digit @ '')'') of
      Compiled r n \<Rightarrow> map_option (\<lambda>mo. (m_start mo, m_end mo)) (re_search False r ''Prop_LOD2_LOD2'')
    | _ \<Rightarrow> None) = Some (4, 9) \<and>
   get_lod0_name ''Prop_LOD2_LOD2'' (props_with True lod_digit) = Some (Inr ''Prop_LOD0_LOD0'')"
  by code_simp

lemma int_of_char_range: "int_of_char c = Some k \<Longrightarrow> 0 \<le> k \<and> k \<le> 9"
  by (auto simp: int_of_char_def is_digit_def less_eq_char_def split: if_splits)

text \<open>
  Claim C7, as the code has it. \<open>get_lod_index\<close> returns 0 when the pattern does not
  compile or nothing matches. When the first match is found and the last group of the
  pattern captured the text \<open>lod\<close>, a part of the name, it returns the final character
  of \<open>lod\<close> read as a digit, and 0 when \<open>lod\<close> is empty or that character is no
  digit. A returned index is between 0 and 9. For \<open>Prop_LOD2\<close> and the pattern
  \<open>_LOD\d\<close> the index is 2.
\<close>

theorem get_lod_index_result:
  assumes "extract_regex_flags (lod_regex props) = (p, ic)"
  shows "(py_re_search (''('' @ p @ '')'') asset_name ic = Raised_re_error \<or>
      py_re_search (''('' @ p @ '')'') asset_name ic = Result None
        \<longrightarrow> get_lod_index asset_name props = Some (Inr 0)) \<and>
     (\<forall>gs lod. py_re_search (''('' @ p @ '')'') asset_name ic = Result (Some gs) \<and> gs \<noteq> [] \<and>
        last gs = Some lod \<longrightarrow>
          (\<exists>xs ys. asset_name = xs @ lod @ ys) \<and>
          get_lod_index asset_name props =
            Some (Inr (if lod = [] then 0
                       else case int_of_char (last lod) of None \<Rightarrow> 0 | Some k \<Rightarrow> k))) \<and>
     (\<forall>k. get_lod_index asset_name props = Some (Inr k) \<longrightarrow> 0 \<le> k \<and> k \<le> 9) \<and>
     get_lod_index ''Prop_LOD2'' (props_with True lod_digit) = Some (Inr 2)"
proof -
  let ?out = "py_re_search (''('' @ p @ '')'') asset_name ic"
  have unmatched: "?out = Raised_re_error \<or> ?out = Result None
        \<longrightarrow> get_lod_index asset_name props = Some (Inr 0)"
    using assms by (auto simp: get_lod_index_def)
  have found: "(\<exists>xs ys. asset_name = xs @ lod @ ys) \<and>
      get_lod_index asset_name props =
        Some (Inr (if lod = [] then 0
                   else case int_of_char (last lod) of None \<Rightarrow> 0 | Some k \<Rightarrow> k))"
    if a: "?out = Result (Some gs) \<and> gs \<noteq> [] \<and> last gs = Some lod" for gs lod
  proof
    from a obtain r n mo where "re_search ic r asset_name = Some mo"
      and "gs = groups asset_name n mo"
      by (auto simp: py_re_search_def split: compile_result.splits)
    moreover have "Some lod \<in> set gs" using a by (metis last_in_set)
    ultimately show "\<exists>xs ys. asset_name = xs @ lod @ ys" using groups_parts by blast
    show "get_lod_index asset_name props =
        Some (Inr (if lod = [] then 0
                   else case int_of_char (last lod) of None \<Rightarrow> 0 | Some k \<Rightarrow> k))"
      using a assms by (simp add: get_lod_index_def split: option.splits)
  qed
  have range: "0 \<le> k \<and> k \<le> 9" if "get_lod_index asset_name props = Some (Inr k)" for k
    using that assms int_of_char_range
    by (auto simp: get_lod_index_def split: re_outcome.splits option.splits if_splits)
  have example: "get_lod_index ''Prop_LOD2'' (props_with True lod_digit) = Some (Inr 2)"
    by code_simp
  have found': "\<forall>gs lod. ?out = Result (Some gs) \<and> gs \<noteq> [] \<and> last gs = Some lod \<longrightarrow>
          (\<exists>xs ys. asset_name = xs @ lod @ ys) \<and>
          get_lod_index asset_name props =
            Some (Inr (if lod = [] then 0
                       else case int_of_char (last lod) of None \<Rightarrow> 0 | Some k \<Rightarrow> k))"
    using found by (intro allI impI)
  have range': "\<forall>k. get_lod_index asset_name props = Some (Inr k) \<longrightarrow> 0 \<le> k \<and> k \<le> 9"
    using range by (intro allI impI)
  show ?thesis by (rule conjI [OF unmatched conjI [OF found' conjI [OF range' example]]])
qed

theorem get_lod_index_result_witness:
  "extract_regex_flags (lod_regex (props_with True lod_digit)) = (lod_digit, False) \<and>
   py_re_search (''('' @ lod_digit @ '')'') ''Prop_LOD2'' False = Result (Some [Some ''_LOD2'']) \<and>
   get_lod_index ''Prop_LOD2'' (props_with True lod_digit) = Some (Inr 2) \<and>
   py_re_search (''('' @ lod_digit @ '')'') ''Prop'' False = Result None \<and>
   get_lod_index ''Prop'' (props_with True lod_digit) = Some (Inr 0)"
proof -
  have e: "extract_regex_flags (lod_regex (props_with True lod_digit)) = (lod_digit, False)"
    by code_simp
  have s: "py_re_search (''('' @ lod_digit @ '')'') ''Prop_LOD2'' False = Result (Some [Some ''_LOD2''])"
    by code_simp
  have n: "py_re_search (''('' @ lod_digit @ '')'') ''Prop'' False = Result None"
    by code_simp
  have two: "get_lod_index ''Prop_LOD2'' (props_with True lod_digit) = Some (Inr 2)"
    using get_lod_index_result [OF e, of "''Prop_LOD2''"] by (rule_tac conjunct2 [THEN conjunct2, THEN conjunct2])
  have zero: "get_lod_index ''Prop'' (props_with True lod_digit) = Some (Inr 0)"
    using get_lod_index_result [OF e, of "''Prop''"] n by simp
  show ?thesis using e s n two zero by (simp only:)
qed

text \<open>
  Claim C7 as stated fails. With the pattern \<open>_LOD(\d)x\<close> the match in \<open>A_LOD2x\<close> is
  \<open>_LOD2x\<close>, whose final character \<open>x\<close> is no digit, so the index would be 0; the
  code reads the last group, \<open>2\<close>, and returns 2.
\<close>

theorem get_lod_index_uses_last_group:
  "py_re_search (''(_LOD('' @ [CHR 0x5C] @ ''d)x)'') ''A_LOD2x'' False
     = Result (Some [Some ''_LOD2x'', Some ''2'']) \<and>
   int_of_char (last ''_LOD2x'') = None \<and>
   get_lod_index ''A_LOD2x'' (props_with True (''_LOD('' @ [CHR 0x5C] @ ''d)x'')) = Some (Inr 2)"
  by code_simp

section \<open>Properties of the asset name\<close>

lemma valid_name_char_not_space: "valid_name_char c \<Longrightarrow> \<not> is_space c"
  by (auto simp: valid_name_char_def is_word_def is_alnum_def is_alpha_def is_upper_def
      is_lower_def is_digit_def is_space_def less_eq_char_def)

lemma sub_invalid_valid: "list_all valid_name_char (sub_invalid_name_characters s)"
  by (induction s rule: sub_invalid_name_characters.induct) (auto simp: valid_name_char_def is_word_def)

lemma sub_invalid_id: "list_all valid_name_char s \<Longrightarrow> sub_invalid_name_characters s = s"
  by (induction s) auto

lemma strip_id:
  assumes "list_all valid_name_char s"
  shows "strip s = s"
proof -
  have *: "dropWhile is_space t = t" if "list_all valid_name_char t" for t
    using that valid_name_char_not_space by (cases t) auto
  have "list_all valid_name_char (rev s)" using assms by (simp add: list_all_iff)
  then show ?thesis using * [of s] * [of "rev s"] assms by (simp add: strip_def)
qed

lemma replace_from_keeps:
  "list_all P s \<Longrightarrow> list_all P (replace_from old [] s)"
proof (induction old "[] :: string" s rule: replace_from.induct)
  case (1 old s)
  show ?case
  proof (cases "old = [] \<or> s = []")
    case True
    then show ?thesis using "1.prems" by (subst replace_from.simps) simp
  next
    case False
    show ?thesis
    proof (cases "startswith s old")
      case True
      have "list_all P (drop (length old) s)"
        using "1.prems" by (auto simp: list_all_iff dest: in_set_dropD)
      then show ?thesis using False True "1.hyps"(1) by (subst replace_from.simps) simp
    next
      case no: False
      have "list_all P (tl s)" using "1.prems" False by (cases s) auto
      moreover have "P (hd s)" using "1.prems" False by (cases s) auto
      ultimately show ?thesis using False no "1.hyps"(2) by (subst replace_from.simps) simp
    qed
  qed
qed

lemma py_replace_keeps: "list_all P s \<Longrightarrow> list_all P (py_replace s old [])"
proof (cases "old = []")
  case True
  assume "list_all P s"
  then show ?thesis using True by (auto simp: py_replace_def list_all_iff)
next
  case False
  assume "list_all P s"
  then show ?thesis using False by (simp add: py_replace_def replace_from_keeps)
qed

lemma get_asset_name_valid:
  "get_asset_name asset_name props lod = Some (Inr once) \<Longrightarrow> list_all valid_name_char once"
  using sub_invalid_valid [of "strip asset_name"]
  by (auto simp: get_asset_name_def Let_def py_replace_keeps
      split: if_splits prod.splits re_outcome.splits option.splits list.splits)

lemma py_re_search_modelled:
  "py_re_search pattern s ic \<noteq> Not_modelled \<Longrightarrow> py_re_search pattern t ic \<noteq> Not_modelled"
  by (auto simp: py_re_search_def split: compile_result.splits)

text \<open>
  Claim C2, as the code has it. Normalising a normalised name gives the same name when
  LOD import is disabled, and when it is enabled provided the name normalised once has no
  further match of the LOD pattern.
\<close>

theorem get_asset_name_idempotent:
  assumes "get_asset_name asset_name props False = Some (Inr once)"
    and "\<not> import_lods props \<or>
      (\<forall>gs. py_re_search (''('' @ fst (extract_regex_flags (lod_regex props)) @ '')'') once
                (snd (extract_regex_flags (lod_regex props))) \<noteq> Result (Some gs))"
  shows "get_asset_name once props False = Some (Inr once)"
proof -
  have valid: "list_all valid_name_char once" using assms(1) by (rule get_asset_name_valid)
  have same: "sub_invalid_name_characters (strip once) = once"
    using valid by (simp add: strip_id sub_invalid_id)
  show ?thesis
  proof (cases "import_lods props")
    case False
    then show ?thesis using same by (simp add: get_asset_name_def)
  next
    case True
    obtain p ic where e: "extract_regex_flags (lod_regex props) = (p, ic)"
      by (cases "extract_regex_flags (lod_regex props)")
    have "py_re_search (''('' @ p @ '')'') (sub_invalid_name_characters (strip asset_name)) ic \<noteq> Not_modelled"
      using assms(1) True e by (auto simp: get_asset_name_def Let_def)
    then have "py_re_search (''('' @ p @ '')'') once ic \<noteq> Not_modelled"
      by (rule py_re_search_modelled)
    moreover have "\<forall>gs. py_re_search (''('' @ p @ '')'') once ic \<noteq> Result (Some gs)"
      using assms(2) True e by simp
    ultimately show ?thesis using True e same
      by (auto simp: get_asset_name_def split: re_outcome.splits option.splits)
  qed
qed

theorem get_asset_name_idempotent_witness:
  "get_asset_name '' Prop 1_LOD2'' (props_with True lod_digit) False = Some (Inr ''Prop_1'') \<and>
   get_asset_name ''Prop_1'' (props_with True lod_digit) False = Some (Inr ''Prop_1'') \<and>
   get_asset_name '' Prop 1_LOD2'' (props_with False lod_digit) False = Some (Inr ''Prop_1_LOD2'') \<and>
   get_asset_name ''Prop_1_LOD2'' (props_with False lod_digit) False = Some (Inr ''Prop_1_LOD2'')"
proof -
  have a: "get_asset_name '' Prop 1_LOD2'' (props_with True lod_digit) False = Some (Inr ''Prop_1'')"
    by code_simp
  have b: "import_lods (props_with True lod_digit) \<and>
      py_re_search (''('' @ fst (extract_regex_flags (lod_regex (props_with True lod_digit))) @ '')'') ''Prop_1''
                (snd (extract_regex_flags (lod_regex (props_with True lod_digit)))) = Result None"
    by code_simp
  have c: "get_asset_name '' Prop 1_LOD2'' (props_with False lod_digit) False = Some (Inr ''Prop_1_LOD2'')"
    by code_simp
  have d: "\<not> import_lods (props_with False lod_digit)" by code_simp
  have "get_asset_name ''Prop_1'' (props_with True lod_digit) False = Some (Inr ''Prop_1'')"
    using get_asset_name_idempotent [OF a] b by simp
  moreover have "get_asset_name ''Prop_1_LOD2'' (props_with False lod_digit) False = Some (Inr ''Prop_1_LOD2'')"
    using get_asset_name_idempotent [OF c] d by simp
  ultimately show ?thesis using a c by (simp only:)
qed

text \<open>
  Claim C2 as stated fails. With LOD import enabled and the pattern \<open>_LOD\d\<close>, the name
  \<open>Prop_LOD1_LOD2\<close> loses only the text of its first match: normalising once gives
  \<open>Prop_LOD2\<close>, normalising that again gives \<open>Prop\<close>.
\<close>

theorem get_asset_name_not_idempotent:
  "get_asset_name ''Prop_LOD1_LOD2'' (props_with True lod_digit) False = Some (Inr ''Prop_LOD2'') \<and>
   get_asset_name ''Prop_LOD2'' (props_with True lod_digit) False = Some (Inr ''Prop'')"
  by code_simp

end
